theory Spec2Isabelle
  imports Complex_Main "HOL-Library.Multiset" "HOL-Library.Monad_Syntax"
begin

section \<open>Numbers and dictionaries\<close>

text \<open>
  The expense splitter computes with Python floats.  The embedding uses exact rational
  numbers for them: no rounding, no infinities, no NaN.  The literal \<open>1e-9\<close> of the
  source is the rational \<open>1 / 10 ^ 9\<close>.

  A Python \<open>dict\<close> iterates in insertion order and holds each key once, so the
  \<open>balances\<close> dictionary is an association list whose keys are distinct.
\<close>

definition eps :: rat where
  "eps = 1 / 10 ^ 9"

type_synonym transfer = "string \<times> string \<times> rat"

section \<open>minimize_transactions\<close>

text \<open>
  The first loop of \<open>minimize_transactions\<close>: every balance whose absolute value is
  below \<open>1e-9\<close> is skipped, a negative one is appended to \<open>debtors\<close> with its sign
  flipped, any other one to \<open>creditors\<close>.
\<close>

fun collect_balances ::
  "(string \<times> rat) list \<Rightarrow> (string \<times> rat) list \<Rightarrow> (string \<times> rat) list
    \<Rightarrow> (string \<times> rat) list \<times> (string \<times> rat) list" where
  "collect_balances [] debtors creditors = (debtors, creditors)"
| "collect_balances ((person, bal) # rest) debtors creditors =
     (if \<bar>bal\<bar> < eps then collect_balances rest debtors creditors
      else if bal < 0 then collect_balances rest (debtors @ [(person, - bal)]) creditors
      else collect_balances rest debtors (creditors @ [(person, bal)]))"

text \<open>
  The \<open>while\<close> loop with its two pointers.  \<open>debtors[i][1] -= transfer_amt\<close> is the
  list update at index \<open>i\<close>; both tests after the updates read the updated entries.
\<close>

function settle_loop ::
  "(string \<times> rat) list \<Rightarrow> (string \<times> rat) list \<Rightarrow> nat \<Rightarrow> nat \<Rightarrow> transfer list
    \<Rightarrow> transfer list" where
  "settle_loop debtors creditors i j transfers =
     (if i < length debtors \<and> j < length creditors then
        (let d_person = fst (debtors ! i); d_amt = snd (debtors ! i);
             c_person = fst (creditors ! j); c_amt = snd (creditors ! j);
             transfer_amt = min d_amt c_amt;
             transfers' = transfers @ [(d_person, c_person, transfer_amt)];
             debtors' = debtors[i := (d_person, d_amt - transfer_amt)];
             creditors' = creditors[j := (c_person, c_amt - transfer_amt)];
             i' = (if snd (debtors' ! i) \<le> eps then i + 1 else i);
             j' = (if snd (creditors' ! j) \<le> eps then j + 1 else j)
         in settle_loop debtors' creditors' i' j' transfers')
      else transfers)"
  by pat_completeness auto
termination
  by (relation "measure (\<lambda>(debtors, creditors, i, j, transfers).
        (length debtors - i) + (length creditors - j))")
     (auto simp: eps_def min_def split: if_splits)

declare settle_loop.simps [simp del]

text \<open>
  Python's \<open>list.sort\<close> is stable, also with \<open>reverse=True\<close>; \<open>sort_key\<close> is a
  stable insertion sort, and sorting by the negated key gives the stable descending order.
\<close>

definition minimize_transactions :: "(string \<times> rat) list \<Rightarrow> transfer list" where
  "minimize_transactions balances =
     (let (debtors, creditors) = collect_balances balances [] [];
          debtors = sort_key (\<lambda>x. snd x) debtors;
          creditors = sort_key (\<lambda>x. - snd x) creditors
      in settle_loop debtors creditors 0 0 [])"


text \<open>
  The same walk written on the remaining parts of the two lists (the entries from the
  pointers on).  It is a proof device; \<open>settle_loop_walk\<close> shows that the loop
  computes it.
\<close>

function walk :: "(string \<times> rat) list \<Rightarrow> (string \<times> rat) list \<Rightarrow> transfer list" where
  "walk [] cs = []"
| "walk (d # ds) [] = []"
| "walk ((dp, d) # ds) ((cp, c) # cs) =
     (dp, cp, min d c) #
       walk (if d - min d c \<le> eps then ds else (dp, d - min d c) # ds)
            (if c - min d c \<le> eps then cs else (cp, c - min d c) # cs)"
  by pat_completeness auto
termination
  by (relation "measure (\<lambda>(ds, cs). length ds + length cs)")
     (auto simp: eps_def min_def split: if_splits)



text \<open>What a participant pays and receives over a list of transfers.\<close>

definition paid_out :: "transfer list \<Rightarrow> string \<Rightarrow> rat" where
  "paid_out ts p = sum_list (map (\<lambda>(frm, to, amt). if frm = p then amt else 0) ts)"

definition received :: "transfer list \<Rightarrow> string \<Rightarrow> rat" where
  "received ts p = sum_list (map (\<lambda>(frm, to, amt). if to = p then amt else 0) ts)"

section \<open>People, expenses and the session state\<close>

record person =
  name :: string
  phone :: string
  upi :: string

text \<open>
  An expense is the dictionary that \<open>add_expense\<close> stores; all six keys are always
  present.  \<open>custom_shares\<close> is a dictionary from participant index to weight,
  \<open>included\<close> a list of participant indices.  Indices are Python integers.
\<close>

record expense =
  desc :: string
  amount :: rat
  paid_by :: int
  split_mode :: string
  custom_shares :: "(int \<times> rat) list"
  included :: "int list"

record session_state =
  people :: "person list"
  expenses :: "expense list"

definition py_range :: "nat \<Rightarrow> int list" where
  "py_range n = map int [0..<n]"

text \<open>
  \<open>add_expense\<close>: \<open>custom_shares or {}\<close> and
  \<open>included or list(range(len(people)))\<close> replace \<open>None\<close> and an empty value.
\<close>

definition add_expense ::
  "string \<Rightarrow> rat \<Rightarrow> int \<Rightarrow> string \<Rightarrow> (int \<times> rat) list option \<Rightarrow> int list option
    \<Rightarrow> session_state \<Rightarrow> session_state" where
  "add_expense dsc amt paid_by_idx mode shares incl st =
     st\<lparr>expenses := expenses st @
       [\<lparr>desc = dsc, amount = amt, paid_by = paid_by_idx, split_mode = mode,
         custom_shares = (case shares of None \<Rightarrow> [] | Some cs \<Rightarrow> cs),
         included = (case incl of
                       None \<Rightarrow> py_range (length (people st))
                     | Some [] \<Rightarrow> py_range (length (people st))
                     | Some ps \<Rightarrow> ps)\<rparr>]\<rparr>"

section \<open>The settlement computation\<close>

datatype py_error = IndexError | ZeroDivisionError

text \<open>
  Python list indexing: an index in \<open>[0, n)\<close> addresses that position, an index in
  \<open>[-n, 0)\<close> counts from the end, any other index raises \<open>IndexError\<close>.
\<close>

definition py_index :: "nat \<Rightarrow> int \<Rightarrow> nat option" where
  "py_index n i =
     (if 0 \<le> i \<and> i < int n then Some (nat i)
      else if - int n \<le> i \<and> i < 0 then Some (nat (int n + i))
      else None)"

text \<open>\<open>xs[i] += v\<close>\<close>

definition add_at :: "rat list \<Rightarrow> int \<Rightarrow> rat \<Rightarrow> py_error + rat list" where
  "add_at xs i v =
     (case py_index (length xs) i of
        None \<Rightarrow> Inl IndexError
      | Some k \<Rightarrow> Inr (xs[k := xs ! k + v]))"

text \<open>\<open>for p in participants: per_share[p] += per\<close>\<close>

fun add_each :: "rat list \<Rightarrow> int list \<Rightarrow> rat \<Rightarrow> py_error + rat list" where
  "add_each per_share [] per = Inr per_share"
| "add_each per_share (p # ps) per =
     (case add_at per_share p per of
        Inl err \<Rightarrow> Inl err
      | Inr per_share' \<Rightarrow> add_each per_share' ps per)"

text \<open>
  The equal split, which the source repeats in four places:
  \<open>k = len(participants) or N; per = amt / k\<close> and the loop over \<open>participants\<close>.
\<close>

definition equal_split :: "nat \<Rightarrow> expense \<Rightarrow> rat list \<Rightarrow> py_error + rat list" where
  "equal_split N e per_share =
     (let participants = included e;
          k = (if length participants = 0 then N else length participants)
      in if k = 0 then Inl ZeroDivisionError
         else add_each per_share participants (amount e / of_nat k))"

text \<open>\<open>for idx, pct in shares.items(): per_share[idx] += amt * (pct / total_pct)\<close>\<close>

fun add_weighted :: "rat list \<Rightarrow> (int \<times> rat) list \<Rightarrow> rat \<Rightarrow> rat \<Rightarrow> py_error + rat list" where
  "add_weighted per_share [] amt total_pct = Inr per_share"
| "add_weighted per_share ((idx, pct) # rest) amt total_pct =
     (case add_at per_share idx (amt * (pct / total_pct)) of
        Inl err \<Rightarrow> Inl err
      | Inr per_share' \<Rightarrow> add_weighted per_share' rest amt total_pct)"

text \<open>
  The share allocation of one expense.  \<open>isclose(total_pct, 0.0)\<close> uses the default
  relative tolerance and no absolute tolerance, so it holds exactly when
  \<open>total_pct\<close> is zero.  An unknown split mode allocates nothing.
\<close>

definition allocate :: "nat \<Rightarrow> expense \<Rightarrow> rat list \<Rightarrow> py_error + rat list" where
  "allocate N e per_share =
     (if split_mode e = ''equal'' then equal_split N e per_share
      else if split_mode e = ''custom %'' then
        (let shares = custom_shares e in
         if shares = [] then equal_split N e per_share
         else
           (let total_pct = sum_list (map snd shares) in
            if total_pct = 0 then equal_split N e per_share
            else add_weighted per_share shares (amount e) total_pct))
      else if split_mode e = ''specific persons'' then equal_split N e per_share
      else Inr per_share)"

text \<open>The body of the loop over the expenses: the payer is credited first.\<close>

definition process_expense ::
  "nat \<Rightarrow> expense \<Rightarrow> rat list \<times> rat list \<Rightarrow> py_error + rat list \<times> rat list" where
  "process_expense N e totals =
     (case add_at (fst totals) (paid_by e) (amount e) of
        Inl err \<Rightarrow> Inl err
      | Inr per_paid' \<Rightarrow>
          (case allocate N e (snd totals) of
             Inl err \<Rightarrow> Inl err
           | Inr per_share' \<Rightarrow> Inr (per_paid', per_share')))"

fun process_expenses ::
  "nat \<Rightarrow> expense list \<Rightarrow> rat list \<times> rat list \<Rightarrow> py_error + rat list \<times> rat list" where
  "process_expenses N [] totals = Inr totals"
| "process_expenses N (e # es) totals =
     (case process_expense N e totals of
        Inl err \<Rightarrow> Inl err
      | Inr totals' \<Rightarrow> process_expenses N es totals')"

text \<open>\<open>per_paid = [0.0] * N; per_share = [0.0] * N\<close> and the loop.\<close>

definition compute_shares :: "nat \<Rightarrow> expense list \<Rightarrow> py_error + rat list \<times> rat list" where
  "compute_shares N es = process_expenses N es (replicate N 0, replicate N 0)"

text \<open>
  The indices that the loop body uses for an expense: the payer always, then the entries
  of \<open>included\<close> wherever the equal split runs, or the keys of \<open>custom_shares\<close> in
  the weighted branch.  An unknown split mode uses no further index.
\<close>

definition used_indices :: "expense \<Rightarrow> int list" where
  "used_indices e =
     paid_by e #
       (if split_mode e = ''equal'' then included e
        else if split_mode e = ''custom %'' then
          (if custom_shares e = [] then included e
           else if sum_list (map snd (custom_shares e)) = 0 then included e
           else map fst (custom_shares e))
        else if split_mode e = ''specific persons'' then included e
        else [])"

text \<open>Tip and tax on the base total, and their proportional allocation.\<close>

definition tip_amount :: "string \<Rightarrow> rat \<Rightarrow> rat \<Rightarrow> rat" where
  "tip_amount tip_mode tip_value total_base =
     (if tip_mode = ''Tip % (applied to total)'' then total_base * (tip_value / 100)
      else if tip_mode = ''Tip fixed amount'' then tip_value
      else 0)"

definition tax_amount :: "rat \<Rightarrow> rat \<Rightarrow> rat" where
  "tax_amount tax_percent total_base = total_base * (tax_percent / 100)"

definition apply_surcharge :: "string \<Rightarrow> rat \<Rightarrow> rat \<Rightarrow> rat list \<Rightarrow> rat list" where
  "apply_surcharge tip_mode tip_value tax_percent per_share =
     (let total_base = sum_list per_share;
          tip = tip_amount tip_mode tip_value total_base;
          tax = tax_amount tax_percent total_base
      in if total_base > 0
         then map (\<lambda>s. s + (s / total_base) * (tip + tax)) per_share
         else per_share)"


section \<open>minimize_transactions on an explicit store\<close>

text \<open>
  To see what \<open>minimize_transactions\<close> mutates, the same function is written over an
  explicit store.  An address is a position in the heap and allocation appends.  The
  heap holds the caller's dictionary and the two-element lists \<open>[person, amount]\<close> that
  the function creates; \<open>debtors\<close> and \<open>creditors\<close> are lists of addresses of such
  lists.  Names and numbers are immutable values.
\<close>

datatype obj = DictObj "(string \<times> rat) list" | ListObj string rat

type_synonym heap = "obj list"

definition dict_at :: "heap \<Rightarrow> nat \<Rightarrow> (string \<times> rat) list option" where
  "dict_at h a =
     (if a < length h then (case h ! a of DictObj d \<Rightarrow> Some d | ListObj p v \<Rightarrow> None) else None)"

definition cell :: "heap \<Rightarrow> nat \<Rightarrow> (string \<times> rat) option" where
  "cell h r =
     (if r < length h then (case h ! r of ListObj p v \<Rightarrow> Some (p, v) | DictObj d \<Rightarrow> None) else None)"

text \<open>\<open>x[1] -= t\<close> on the list object at address \<open>r\<close>\<close>

definition sub_amt :: "heap \<Rightarrow> nat \<Rightarrow> rat \<Rightarrow> heap option" where
  "sub_amt h r t =
     (case cell h r of None \<Rightarrow> None | Some (p, v) \<Rightarrow> Some (h[r := ListObj p (v - t)]))"

text \<open>The sort key \<open>lambda x: x[1]\<close>\<close>

definition amt_key :: "heap \<Rightarrow> nat \<Rightarrow> rat" where
  "amt_key h r = (case cell h r of None \<Rightarrow> 0 | Some (p, v) \<Rightarrow> v)"

text \<open>\<open>debtors.append([person, -bal])\<close> allocates a new list object.\<close>

fun collect_balances_h ::
  "(string \<times> rat) list \<Rightarrow> nat list \<Rightarrow> nat list \<Rightarrow> heap \<Rightarrow> nat list \<times> nat list \<times> heap" where
  "collect_balances_h [] debtors creditors h = (debtors, creditors, h)"
| "collect_balances_h ((person, bal) # rest) debtors creditors h =
     (if \<bar>bal\<bar> < eps then collect_balances_h rest debtors creditors h
      else if bal < 0
        then collect_balances_h rest (debtors @ [length h]) creditors (h @ [ListObj person (- bal)])
      else collect_balances_h rest debtors (creditors @ [length h]) (h @ [ListObj person bal]))"

text \<open>
  The loop reads and writes the list objects through the heap.  It is a partial function:
  a result \<open>None\<close> stands for a run that does not return or that reads an address
  holding no list object.
\<close>

partial_function (option) settle_loop_h ::
  "nat list \<Rightarrow> nat list \<Rightarrow> nat \<Rightarrow> nat \<Rightarrow> transfer list \<Rightarrow> heap \<Rightarrow> (transfer list \<times> heap) option" where
  "settle_loop_h debtors creditors i j transfers h =
     (if i < length debtors \<and> j < length creditors then
        do {
          d \<leftarrow> cell h (debtors ! i);
          c \<leftarrow> cell h (creditors ! j);
          let transfer_amt = min (snd d) (snd c);
          let transfers' = transfers @ [(fst d, fst c, transfer_amt)];
          h1 \<leftarrow> sub_amt h (debtors ! i) transfer_amt;
          h2 \<leftarrow> sub_amt h1 (creditors ! j) transfer_amt;
          d' \<leftarrow> cell h2 (debtors ! i);
          c' \<leftarrow> cell h2 (creditors ! j);
          settle_loop_h debtors creditors
            (if snd d' \<le> eps then i + 1 else i)
            (if snd c' \<le> eps then j + 1 else j)
            transfers' h2
        }
      else Some (transfers, h))"

text \<open>The function on the heap, given the address of the \<open>balances\<close> dictionary.\<close>

definition minimize_transactions_h :: "nat \<Rightarrow> heap \<Rightarrow> (transfer list \<times> heap) option" where
  "minimize_transactions_h a h =
     (case dict_at h a of
        None \<Rightarrow> None
      | Some balances \<Rightarrow>
          (case collect_balances_h balances [] [] h of
             (debtors, creditors, h1) \<Rightarrow>
               settle_loop_h (sort_key (amt_key h1) debtors)
                 (sort_key (\<lambda>r. - amt_key h1 r) creditors) 0 0 [] h1))"

section \<open>Floating-point rounding\<close>

text \<open>
  For the one claim that speaks of exactly equal results, the rounding of Python's floats
  is written out: IEEE 754 binary64, round to nearest, ties to even, for values in the
  normal range (no overflow, no subnormal numbers).  \<open>binade x\<close> is the exponent
  \<open>e\<close> with \<open>2 ^ e \<le> \<bar>x\<bar> < 2 ^ (e + 1)\<close>, found from the bit lengths of numerator
  and denominator; \<open>fl x\<close> is the nearest multiple of \<open>2 ^ (e - 52)\<close>.
\<close>

definition pow2 :: "int \<Rightarrow> rat" where
  "pow2 e = (if 0 \<le> e then 2 ^ nat e else 1 / 2 ^ nat (- e))"

function bit_length :: "int \<Rightarrow> int" where
  "bit_length a = (if 0 < a then bit_length (a div 2) + 1 else 0)"
  by pat_completeness auto
termination
  by (relation "measure nat") auto

declare bit_length.simps [simp del]

definition binade :: "rat \<Rightarrow> int" where
  "binade x =
     (let e0 = bit_length (fst (quotient_of \<bar>x\<bar>)) - bit_length (snd (quotient_of \<bar>x\<bar>))
      in if pow2 e0 \<le> \<bar>x\<bar> then e0 else e0 - 1)"

definition round_half_even :: "rat \<Rightarrow> int" where
  "round_half_even q =
     (let f = \<lfloor>q\<rfloor>; r = q - of_int f
      in if r < 1 / 2 then f
         else if 1 / 2 < r then f + 1
         else if even f then f else f + 1)"

definition fl :: "rat \<Rightarrow> rat" where
  "fl x = (if x = 0 then 0
           else (let u = pow2 (binade x - 52) in of_int (round_half_even (x / u)) * u))"

text \<open>
  The weighted branch of the percentage split with every operation rounded:
  \<open>total_pct = sum(shares.values())\<close>, then
  \<open>per_share[idx] += amt * (pct / total_pct)\<close>.  The sum adds from the left, starting
  at zero.
\<close>

definition add_at_fl :: "rat list \<Rightarrow> int \<Rightarrow> rat \<Rightarrow> py_error + rat list" where
  "add_at_fl xs i v =
     (case py_index (length xs) i of
        None \<Rightarrow> Inl IndexError
      | Some k \<Rightarrow> Inr (xs[k := fl (xs ! k + v)]))"

fun add_weighted_fl :: "rat list \<Rightarrow> (int \<times> rat) list \<Rightarrow> rat \<Rightarrow> rat \<Rightarrow> py_error + rat list" where
  "add_weighted_fl per_share [] amt total_pct = Inr per_share"
| "add_weighted_fl per_share ((idx, pct) # rest) amt total_pct =
     (case add_at_fl per_share idx (fl (amt * fl (pct / total_pct))) of
        Inl err \<Rightarrow> Inl err
      | Inr per_share' \<Rightarrow> add_weighted_fl per_share' rest amt total_pct)"

definition weighted_split_fl :: "rat list \<Rightarrow> (int \<times> rat) list \<Rightarrow> rat \<Rightarrow> py_error + rat list" where
  "weighted_split_fl per_share shares amt =
     add_weighted_fl per_share shares amt (foldl (\<lambda>s w. fl (s + w)) 0 (map snd shares))"

section \<open>The transfer walk\<close>

lemma eps_pos: "0 < eps"
  by (simp add: eps_def)

lemma drop_update_here: "i < length xs \<Longrightarrow> drop i (xs[i := x]) = x # drop (Suc i) xs"
  by (metis Cons_nth_drop_Suc drop_update_cancel length_list_update lessI nth_list_update_eq)

lemma settle_loop_walk:
  "settle_loop ds cs i j ts = ts @ walk (drop i ds) (drop j cs)"
proof (induction ds cs i j ts rule: settle_loop.induct)
  case (1 ds cs i j ts)
  show ?case
  proof (cases "i < length ds \<and> j < length cs")
    case False
    then have "drop i ds = [] \<or> drop j cs = []" by auto
    then have "walk (drop i ds) (drop j cs) = []"
      by (cases "drop i ds") auto
    with False show ?thesis by (subst settle_loop.simps) auto
  next
    case True
    define dp where "dp = fst (ds ! i)"
    define d where "d = snd (ds ! i)"
    define cp where "cp = fst (cs ! j)"
    define c where "c = snd (cs ! j)"
    define t where "t = min d c"
    define ds' where "ds' = ds[i := (dp, d - t)]"
    define cs' where "cs' = cs[j := (cp, c - t)]"
    define i' where "i' = (if snd (ds' ! i) \<le> eps then i + 1 else i)"
    define j' where "j' = (if snd (cs' ! j) \<le> eps then j + 1 else j)"
    note defs = dp_def d_def cp_def c_def t_def ds'_def cs'_def i'_def j'_def
    have di: "drop i ds = (dp, d) # drop (Suc i) ds"
      and dj: "drop j cs = (cp, c) # drop (Suc j) cs"
      using True by (simp_all add: Cons_nth_drop_Suc dp_def d_def cp_def c_def)
    have IH: "settle_loop ds' cs' i' j' (ts @ [(dp, cp, t)])
        = (ts @ [(dp, cp, t)]) @ walk (drop i' ds') (drop j' cs')"
      unfolding defs by (rule "1.IH"[OF True refl refl refl refl refl refl refl refl refl refl])
    have unf: "settle_loop ds cs i j ts = settle_loop ds' cs' i' j' (ts @ [(dp, cp, t)])"
      unfolding defs by (subst settle_loop.simps) (simp only: True if_True Let_def simp_thms)
    have i'_eq: "i' = (if d - t \<le> eps then Suc i else i)"
      using True by (simp add: i'_def ds'_def)
    have j'_eq: "j' = (if c - t \<le> eps then Suc j else j)"
      using True by (simp add: j'_def cs'_def)
    have dd: "drop i' ds' = (if d - t \<le> eps then drop (Suc i) ds else (dp, d - t) # drop (Suc i) ds)"
      using True by (simp add: i'_eq ds'_def drop_update_here)
    have dc: "drop j' cs' = (if c - t \<le> eps then drop (Suc j) cs else (cp, c - t) # drop (Suc j) cs)"
      using True by (simp add: j'_eq cs'_def drop_update_here)
    show ?thesis
      apply (simp only: unf IH dd dc di dj)
      apply (simp only: walk.simps t_def append.simps append_assoc)
      done
  qed
qed


lemma walk_Nil2 [simp]: "walk ds [] = []"
  by (cases ds) simp_all

lemma walk_empty: "ds = [] \<or> cs = [] \<Longrightarrow> walk ds cs = []"
  by (cases ds) auto

lemma walk_length:
  "ds \<noteq> [] \<Longrightarrow> cs \<noteq> [] \<Longrightarrow> Suc (length (walk ds cs)) \<le> length ds + length cs"
proof (induction ds cs rule: walk.induct)
  case (3 dp d ds cp c cs)
  define ds' where "ds' = (if d - min d c \<le> eps then ds else (dp, d - min d c) # ds)"
  define cs' where "cs' = (if c - min d c \<le> eps then cs else (cp, c - min d c) # cs)"
  have unf: "walk ((dp, d) # ds) ((cp, c) # cs) = (dp, cp, min d c) # walk ds' cs'"
    by (simp add: ds'_def cs'_def)
  have "d - min d c \<le> eps \<or> c - min d c \<le> eps"
    using eps_pos by (auto simp: min_def)
  then have len: "length ds' + length cs' \<le> Suc (length ds + length cs)"
    by (auto simp: ds'_def cs'_def)
  show ?case
  proof (cases "ds' = [] \<or> cs' = []")
    case True
    then have "walk ds' cs' = []" by (rule walk_empty)
    then have "length (walk ((dp, d) # ds) ((cp, c) # cs)) = 1" unfolding unf by simp
    then show ?thesis by (simp del: walk.simps)
  next
    case False
    then have "Suc (length (walk ds' cs')) \<le> length ds' + length cs'"
      using "3.IH" unfolding ds'_def cs'_def by blast
    with len have "Suc (length (walk ds' cs')) \<le> Suc (length ds + length cs)" by linarith
    then show ?thesis unfolding unf by simp
  qed
qed simp_all

lemma collect_balances_eq:
  "collect_balances balances ds cs =
     (ds @ map (\<lambda>(p, v). (p, - v)) (filter (\<lambda>(p, v). v \<le> - eps) balances),
      cs @ filter (\<lambda>(p, v). eps \<le> v) balances)"
proof (induction balances ds cs rule: collect_balances.induct)
  case (2 person bal rest debtors creditors)
  then show ?case using eps_pos by (auto simp: abs_if)
qed simp

lemma minimize_transactions_walk:
  "minimize_transactions balances =
     walk (sort_key snd (map (\<lambda>(p, v). (p, - v)) (filter (\<lambda>(p, v). v \<le> - eps) balances)))
          (sort_key (\<lambda>x. - snd x) (filter (\<lambda>(p, v). eps \<le> v) balances))"
  by (simp add: minimize_transactions_def collect_balances_eq settle_loop_walk)

text \<open>
  Claim C7, as amended.  The code puts a participant among the debtors when the balance is
  at most \<open>-1e-9\<close> and among the creditors when it is at least \<open>1e-9\<close> (only
  \<open>abs(bal) < 1e-9\<close> is skipped).  With these counts: when there is no debtor or no
  creditor, no transfer is emitted; when there is at least one of each, the number of
  transfers is at most debtors + creditors - 1.  Both together are the bound
  \<open>max 0 (debtors + creditors - 1)\<close>.
\<close>

theorem transfer_count_bound:
  "(filter (\<lambda>(p, v). v \<le> - eps) balances = [] \<or> filter (\<lambda>(p, v). eps \<le> v) balances = []
      \<longrightarrow> minimize_transactions balances = [])
   \<and> (filter (\<lambda>(p, v). v \<le> - eps) balances \<noteq> [] \<and> filter (\<lambda>(p, v). eps \<le> v) balances \<noteq> []
      \<longrightarrow> Suc (length (minimize_transactions balances))
          \<le> length (filter (\<lambda>(p, v). v \<le> - eps) balances)
            + length (filter (\<lambda>(p, v). eps \<le> v) balances))
   \<and> int (length (minimize_transactions balances))
       \<le> max 0 (int (length (filter (\<lambda>(p, v). v \<le> - eps) balances))
                + int (length (filter (\<lambda>(p, v). eps \<le> v) balances)) - 1)"
proof -
  define D where "D = filter (\<lambda>(p, v). v \<le> - eps) balances"
  define C where "C = filter (\<lambda>(p, v). eps \<le> v) balances"
  define ds where "ds = sort_key snd (map (\<lambda>(p, v). (p, - v)) D)"
  define cs where "cs = sort_key (\<lambda>x. - snd x) C"
  have m: "minimize_transactions balances = walk ds cs"
    by (simp add: minimize_transactions_walk ds_def cs_def D_def C_def)
  have lens: "length ds = length D" "length cs = length C"
    by (simp_all add: ds_def cs_def)
  have nil: "ds = [] \<longleftrightarrow> D = []" "cs = [] \<longleftrightarrow> C = []"
    using lens by (metis length_0_conv)+
  have none: "walk ds cs = []" if "D = [] \<or> C = []"
    by (rule walk_empty) (use that nil in simp)
  have some: "Suc (length (walk ds cs)) \<le> length D + length C" if "D \<noteq> []" "C \<noteq> []"
    using walk_length[of ds cs] that nil lens by simp
  have bound: "int (length (walk ds cs)) \<le> max 0 (int (length D) + int (length C) - 1)"
  proof (cases "D = [] \<or> C = []")
    case True
    then show ?thesis using none by simp
  next
    case False
    then show ?thesis using some by linarith
  qed
  show ?thesis
    unfolding m D_def[symmetric] C_def[symmetric] using none some bound by blast
qed

text \<open>
  Two creditors and no debtor give no transfer; one creditor and two debtors give two
  transfers, which is debtors + creditors - 1.
\<close>

theorem transfer_count_bound_witness:
  "filter (\<lambda>(p, v). v \<le> - eps) [(''A'', 1), (''B'', 1)] = []
   \<and> minimize_transactions [(''A'', 1), (''B'', 1)] = []
   \<and> filter (\<lambda>(p, v). v \<le> - eps) [(''A'', 200), (''B'', - 100), (''C'', - 100)] \<noteq> []
   \<and> filter (\<lambda>(p, v). eps \<le> v) [(''A'', 200), (''B'', - 100), (''C'', - 100)] \<noteq> []
   \<and> Suc (length (minimize_transactions [(''A'', 200), (''B'', - 100), (''C'', - 100)])) \<le> 2 + 1"
proof -
  have e: "filter (\<lambda>(p, v). v \<le> - eps) [(''A'', 1), (''B'', 1)] = []"
    by (simp add: eps_def)
  have d: "filter (\<lambda>(p, v). v \<le> - eps) [(''A'', 200), (''B'', - 100), (''C'', - 100)]
      = [(''B'', - 100), (''C'', - 100)]"
    by (simp add: eps_def)
  have c: "filter (\<lambda>(p, v). eps \<le> v) [(''A'', 200), (''B'', - 100), (''C'', - 100)]
      = [(''A'', 200)]"
    by (simp add: eps_def)
  show ?thesis
    using transfer_count_bound [of "[(''A'', 1), (''B'', 1)]"]
      transfer_count_bound [of "[(''A'', 200), (''B'', - 100), (''C'', - 100)]"]
    unfolding e d c by simp
qed

text \<open>
  Claim C7 as stated counts only balances strictly beyond \<open>1e-9\<close>.  With one balance
  of exactly \<open>-1e-9\<close> and one of exactly \<open>1e-9\<close> the code emits one transfer, while
  the stated bound is \<open>0 + 0 - 1\<close>.
\<close>

theorem transfer_count_counterexample:
  "\<not> int (length (minimize_transactions [(''A'', - eps), (''B'', eps)]))
       \<le> int (length (filter (\<lambda>(p, v). v < - eps) [(''A'', - eps), (''B'', eps)]))
         + int (length (filter (\<lambda>(p, v). eps < v) [(''A'', - eps), (''B'', eps)])) - 1"
proof -
  have "minimize_transactions [(''A'', - eps), (''B'', eps)] = [(''A'', ''B'', eps)]"
    using eps_pos by (simp add: minimize_transactions_walk)
  then show ?thesis using eps_pos by simp
qed

lemma walk_transfer_props:
  "x \<in> set (walk ds cs) \<Longrightarrow> \<forall>y\<in>set ds. 0 < snd y \<Longrightarrow> \<forall>y\<in>set cs. 0 < snd y \<Longrightarrow>
     0 < snd (snd x) \<and> fst x \<in> fst ` set ds \<and> fst (snd x) \<in> fst ` set cs"
proof (induction ds cs rule: walk.induct)
  case (3 dp d ds cp c cs)
  define ds' where "ds' = (if d - min d c \<le> eps then ds else (dp, d - min d c) # ds)"
  define cs' where "cs' = (if c - min d c \<le> eps then cs else (cp, c - min d c) # cs)"
  have unf: "walk ((dp, d) # ds) ((cp, c) # cs) = (dp, cp, min d c) # walk ds' cs'"
    by (simp add: ds'_def cs'_def)
  have pos: "0 < d" "0 < c" using "3.prems" by auto
  have ds': "\<forall>y\<in>set ds'. 0 < snd y" and cs': "\<forall>y\<in>set cs'. 0 < snd y"
    using "3.prems"(2,3) eps_pos by (auto simp: ds'_def cs'_def)
  have sub: "fst ` set ds' \<subseteq> fst ` set ((dp, d) # ds)" "fst ` set cs' \<subseteq> fst ` set ((cp, c) # cs)"
    by (auto simp: ds'_def cs'_def)
  from "3.prems"(1) have "x = (dp, cp, min d c) \<or> x \<in> set (walk ds' cs')"
    unfolding unf by simp
  then show ?case
  proof
    assume "x = (dp, cp, min d c)"
    then show ?thesis using pos by simp
  next
    assume "x \<in> set (walk ds' cs')"
    then have "0 < snd (snd x) \<and> fst x \<in> fst ` set ds' \<and> fst (snd x) \<in> fst ` set cs'"
      using "3.IH" ds' cs' unfolding ds'_def cs'_def by blast
    then show ?thesis using sub by blast
  qed
qed simp_all

lemma debtors_positive:
  "\<forall>y\<in>set (sort_key snd (map (\<lambda>(p, v). (p, - v)) (filter (\<lambda>(p, v). v \<le> - eps) balances))). 0 < snd y"
  using eps_pos by auto

lemma creditors_positive:
  "\<forall>y\<in>set (sort_key (\<lambda>x. - snd x) (filter (\<lambda>(p, v). eps \<le> v) balances)). 0 < snd y"
  using eps_pos by auto

lemma debtor_names:
  "fst ` set (sort_key snd (map (\<lambda>(p, v). (p, - v)) (filter (\<lambda>(p, v). v \<le> - eps) balances)))
     = fst ` {y \<in> set balances. snd y \<le> - eps}"
  by (auto simp: image_iff)

lemma creditor_names:
  "fst ` set (sort_key (\<lambda>x. - snd x) (filter (\<lambda>(p, v). eps \<le> v) balances))
     = fst ` {y \<in> set balances. eps \<le> snd y}"
  by (auto simp: image_iff)

text \<open>
  Claim C6.  Every transfer that \<open>minimize_transactions\<close> emits has a strictly
  positive amount, and its payer differs from its receiver; the latter rests on the keys
  of the balance dictionary being distinct, as the keys of a dictionary are.
\<close>

theorem transfers_positive_no_self:
  assumes "(frm, to, amt) \<in> set (minimize_transactions balances)"
  shows "0 < amt \<and> (distinct (map fst balances) \<longrightarrow> frm \<noteq> to)"
proof -
  let ?ds = "sort_key snd (map (\<lambda>(p, v). (p, - v)) (filter (\<lambda>(p, v). v \<le> - eps) balances))"
  let ?cs = "sort_key (\<lambda>x. - snd x) (filter (\<lambda>(p, v). eps \<le> v) balances)"
  have mem: "(frm, to, amt) \<in> set (walk ?ds ?cs)"
    using assms by (simp add: minimize_transactions_walk)
  have props: "0 < amt \<and> frm \<in> fst ` set ?ds \<and> to \<in> fst ` set ?cs"
    using walk_transfer_props[OF mem debtors_positive creditors_positive] by simp
  then obtain v w where v: "(frm, v) \<in> set balances" "v \<le> - eps"
    and w: "(to, w) \<in> set balances" "eps \<le> w"
    unfolding debtor_names creditor_names by auto
  have "frm \<noteq> to" if "distinct (map fst balances)"
  proof
    assume "frm = to"
    with v w that have "v = w" by (metis eq_key_imp_eq_value)
    with v w eps_pos show False by simp
  qed
  with props show ?thesis by simp
qed

text \<open>
  The equal-split scenario of the specification: \<open>B\<close> pays \<open>A\<close> 100.
\<close>

theorem transfers_positive_no_self_witness:
  "(''B'', ''A'', 100) \<in> set (minimize_transactions [(''A'', 200), (''B'', - 100), (''C'', - 100)])
   \<and> (0::rat) < 100 \<and> distinct (map fst [(''A'', 200::rat), (''B'', - 100), (''C'', - 100)])
   \<and> ''B'' \<noteq> ''A''"
proof -
  have m: "minimize_transactions [(''A'', 200), (''B'', - 100), (''C'', - 100)]
      = [(''B'', ''A'', 100), (''C'', ''A'', 100)]"
    by (simp add: minimize_transactions_walk eps_def)
  have mem: "(''B'', ''A'', 100) \<in> set (minimize_transactions [(''A'', 200), (''B'', - 100), (''C'', - 100)])"
    unfolding m by simp
  show ?thesis using transfers_positive_no_self [OF mem] mem by simp
qed

section \<open>Applying the transfers\<close>



lemma paid_out_Nil [simp]: "paid_out [] p = 0"
  by (simp add: paid_out_def)

lemma received_Nil [simp]: "received [] p = 0"
  by (simp add: received_def)






lemma sum_list_neg: "sum_list (map uminus xs) = - sum_list (xs :: rat list)"
  by (induction xs) simp_all



lemma sum_list_lower:
  "\<forall>x\<in>set xs. - e \<le> x \<Longrightarrow> - (of_nat (length xs) * e) \<le> sum_list xs" for e :: rat
  by (induction xs) (auto simp: algebra_simps)

lemma sum_zero_upper:
  assumes "sum_list xs = 0" and "\<forall>x\<in>set xs. - e \<le> x" and "x \<in> set xs"
  shows "x \<le> (of_nat (length xs) - 1) * (e::rat)"
proof -
  from assms(3) obtain ys zs where xs: "xs = ys @ x # zs" by (meson split_list)
  have "- (of_nat (length (ys @ zs)) * e) \<le> sum_list (ys @ zs)"
    by (rule sum_list_lower) (use assms(2) xs in auto)
  moreover have "x = - sum_list (ys @ zs)" using assms(1) xs by simp
  moreover have "of_nat (length (ys @ zs)) = (of_nat (length xs) - 1 :: rat)" using xs by simp
  ultimately show ?thesis by simp
qed

lemma sum_zero_lower:
  assumes "sum_list xs = 0" and "\<forall>x\<in>set xs. x \<le> e" and "x \<in> set xs"
  shows "- ((of_nat (length xs) - 1) * (e::rat)) \<le> x"
proof -
  have "sum_list (map uminus xs) = 0" using assms(1) by (simp only: sum_list_neg)
  moreover have "\<forall>y\<in>set (map uminus xs). - e \<le> y" using assms(2) by auto
  moreover have "- x \<in> set (map uminus xs)" using assms(3) by auto
  ultimately have "- x \<le> (of_nat (length (map uminus xs)) - 1) * e"
    by (rule sum_zero_upper)
  then show ?thesis by simp
qed

















section \<open>Share computation\<close>

lemma py_index_Some_iff:
  "(\<exists>k. py_index n i = Some k) \<longleftrightarrow> - int n \<le> i \<and> i < int n"
  by (auto simp: py_index_def)

lemma py_index_None_iff:
  "py_index n i = None \<longleftrightarrow> i < - int n \<or> int n \<le> i"
  by (auto simp: py_index_def)

lemma py_index_less: "py_index n i = Some k \<Longrightarrow> k < n"
  by (auto simp: py_index_def split: if_splits)

lemma sum_list_add_at: "k < length xs \<Longrightarrow> sum_list (xs[k := xs ! k + v]) = sum_list xs + (v::rat)"
proof (induction xs arbitrary: k)
  case Nil
  then show ?case by simp
next
  case (Cons x xs)
  then show ?case by (cases k) simp_all
qed

lemma add_at_cases:
  "(py_index (length xs) i = None \<and> add_at xs i v = Inl IndexError)
   \<or> (\<exists>ys. add_at xs i v = Inr ys \<and> py_index (length xs) i \<noteq> None
          \<and> length ys = length xs \<and> sum_list ys = sum_list xs + v)"
proof (cases "py_index (length xs) i")
  case None
  then show ?thesis by (simp add: add_at_def)
next
  case (Some k)
  then have "k < length xs" by (rule py_index_less)
  then show ?thesis using Some by (simp add: add_at_def sum_list_add_at)
qed

lemma add_each_cases:
  "((\<exists>p\<in>set ps. py_index (length xs) p = None) \<and> add_each xs ps v = Inl IndexError)
   \<or> (\<exists>ys. add_each xs ps v = Inr ys \<and> (\<forall>p\<in>set ps. py_index (length xs) p \<noteq> None)
          \<and> length ys = length xs \<and> sum_list ys = sum_list xs + of_nat (length ps) * v)"
proof (induction ps arbitrary: xs)
  case Nil
  show ?case by simp
next
  case (Cons p ps)
  from add_at_cases[of xs p v] show ?case
  proof (elim disjE conjE exE)
    assume "py_index (length xs) p = None" "add_at xs p v = Inl IndexError"
    then show ?thesis by simp
  next
    fix ys assume a: "add_at xs p v = Inr ys" "py_index (length xs) p \<noteq> None"
      "length ys = length xs" "sum_list ys = sum_list xs + v"
    from Cons.IH[of ys] show ?thesis
      using a by (auto simp: algebra_simps)
  qed
qed

lemma add_weighted_cases:
  "((\<exists>p\<in>set (map fst shares). py_index (length xs) p = None)
      \<and> add_weighted xs shares amt tot = Inl IndexError)
   \<or> (\<exists>ys. add_weighted xs shares amt tot = Inr ys
          \<and> (\<forall>p\<in>set (map fst shares). py_index (length xs) p \<noteq> None)
          \<and> length ys = length xs
          \<and> sum_list ys = sum_list xs + amt * (sum_list (map snd shares) / tot))"
proof (induction shares arbitrary: xs)
  case Nil
  show ?case by simp
next
  case (Cons s shares)
  obtain idx pct where s: "s = (idx, pct)" by (cases s)
  from add_at_cases[of xs idx "amt * (pct / tot)"] show ?case
  proof (elim disjE conjE exE)
    assume "py_index (length xs) idx = None" "add_at xs idx (amt * (pct / tot)) = Inl IndexError"
    then show ?thesis by (simp add: s)
  next
    fix ys assume a: "add_at xs idx (amt * (pct / tot)) = Inr ys"
      "py_index (length xs) idx \<noteq> None"
      "length ys = length xs" "sum_list ys = sum_list xs + amt * (pct / tot)"
    from Cons.IH[of ys] show ?thesis
      using a by (auto simp: s algebra_simps add_divide_distrib)
  qed
qed

lemma equal_split_cases:
  assumes "0 < N" and "length xs = N"
  shows "((\<exists>p\<in>set (included e). py_index N p = None) \<and> equal_split N e xs = Inl IndexError)
   \<or> (\<exists>ys. equal_split N e xs = Inr ys \<and> (\<forall>p\<in>set (included e). py_index N p \<noteq> None)
          \<and> length ys = N
          \<and> (included e \<noteq> [] \<longrightarrow> sum_list ys = sum_list xs + amount e))"
proof -
  define k where "k = (if length (included e) = 0 then N else length (included e))"
  have k0: "k \<noteq> 0" using assms(1) by (simp add: k_def)
  have eq: "equal_split N e xs = add_each xs (included e) (amount e / of_nat k)"
    using k0 by (simp add: equal_split_def Let_def k_def)
  have full: "of_nat (length (included e)) * (amount e / of_nat k) = amount e"
    if "included e \<noteq> []"
    using that by (simp add: k_def)
  from add_each_cases[of "included e" xs "amount e / of_nat k"] show ?thesis
    unfolding eq using assms(2) full by auto
qed

lemma allocate_cases:
  assumes "0 < N" and "length xs = N"
  shows "((\<exists>i\<in>set (tl (used_indices e)). py_index N i = None) \<and> allocate N e xs = Inl IndexError)
   \<or> (\<exists>ys. allocate N e xs = Inr ys \<and> (\<forall>i\<in>set (tl (used_indices e)). py_index N i \<noteq> None)
          \<and> length ys = N
          \<and> (split_mode e \<in> {''equal'', ''custom %'', ''specific persons''} \<and> included e \<noteq> []
                \<longrightarrow> sum_list ys = sum_list xs + amount e))"
proof -
  note eqs = equal_split_cases[OF assms, of e]
  consider (equal) "split_mode e = ''equal''"
    | (pct_fallback) "split_mode e = ''custom %''"
        "custom_shares e = [] \<or> sum_list (map snd (custom_shares e)) = 0"
    | (pct) "split_mode e = ''custom %''" "custom_shares e \<noteq> []"
        "sum_list (map snd (custom_shares e)) \<noteq> 0"
    | (subset) "split_mode e = ''specific persons''"
    | (other) "split_mode e \<noteq> ''equal''" "split_mode e \<noteq> ''custom %''"
        "split_mode e \<noteq> ''specific persons''"
    by blast
  then show ?thesis
  proof cases
    case equal
    then have "allocate N e xs = equal_split N e xs" "tl (used_indices e) = included e"
      by (simp_all add: allocate_def used_indices_def)
    then show ?thesis using eqs equal by auto
  next
    case pct_fallback
    then have "allocate N e xs = equal_split N e xs" "tl (used_indices e) = included e"
      by (auto simp: allocate_def used_indices_def Let_def)
    then show ?thesis using eqs pct_fallback by auto
  next
    case pct
    then have a: "allocate N e xs
        = add_weighted xs (custom_shares e) (amount e) (sum_list (map snd (custom_shares e)))"
      and u: "tl (used_indices e) = map fst (custom_shares e)"
      by (simp_all add: allocate_def used_indices_def Let_def)
    from add_weighted_cases[of "custom_shares e" xs "amount e" "sum_list (map snd (custom_shares e))"]
    show ?thesis unfolding a u using assms(2) pct(3) by auto
  next
    case subset
    then have "allocate N e xs = equal_split N e xs" "tl (used_indices e) = included e"
      by (simp_all add: allocate_def used_indices_def)
    then show ?thesis using eqs subset by auto
  next
    case other
    then have "allocate N e xs = Inr xs" "tl (used_indices e) = []"
      by (simp_all add: allocate_def used_indices_def)
    then show ?thesis using assms(2) other by simp
  qed
qed

lemma used_indices_split: "used_indices e = paid_by e # tl (used_indices e)"
  by (simp add: used_indices_def)

lemma process_expense_cases:
  assumes "0 < N" and "length paid = N" and "length share = N"
  shows "((\<exists>i\<in>set (used_indices e). py_index N i = None)
            \<and> process_expense N e (paid, share) = Inl IndexError)
   \<or> (\<exists>paid' share'. process_expense N e (paid, share) = Inr (paid', share')
          \<and> (\<forall>i\<in>set (used_indices e). py_index N i \<noteq> None)
          \<and> length paid' = N \<and> length share' = N
          \<and> sum_list paid' = sum_list paid + amount e
          \<and> (split_mode e \<in> {''equal'', ''custom %'', ''specific persons''} \<and> included e \<noteq> []
                \<longrightarrow> sum_list share' = sum_list share + amount e))"
proof -
  have set_u: "set (used_indices e) = insert (paid_by e) (set (tl (used_indices e)))"
    by (subst used_indices_split) simp
  from add_at_cases[of paid "paid_by e" "amount e"] show ?thesis
  proof (elim disjE conjE exE)
    assume "py_index (length paid) (paid_by e) = None"
      "add_at paid (paid_by e) (amount e) = Inl IndexError"
    then show ?thesis using assms(2) by (simp add: process_expense_def set_u)
  next
    fix paid' assume p: "add_at paid (paid_by e) (amount e) = Inr paid'"
      "py_index (length paid) (paid_by e) \<noteq> None"
      "length paid' = length paid" "sum_list paid' = sum_list paid + amount e"
    from allocate_cases[OF assms(1,3), of e] show ?thesis
    proof (elim disjE conjE exE)
      assume "\<exists>i\<in>set (tl (used_indices e)). py_index N i = None"
        "allocate N e share = Inl IndexError"
      then show ?thesis using p by (simp add: process_expense_def set_u)
    next
      fix share' assume "allocate N e share = Inr share'"
        "\<forall>i\<in>set (tl (used_indices e)). py_index N i \<noteq> None"
        "length share' = N"
        "split_mode e \<in> {''equal'', ''custom %'', ''specific persons''} \<and> included e \<noteq> []
           \<longrightarrow> sum_list share' = sum_list share + amount e"
      then show ?thesis using p assms(2) by (simp add: process_expense_def set_u)
    qed
  qed
qed

lemma process_expenses_cases:
  assumes "0 < N" and "length paid = N" and "length share = N"
  shows "((\<exists>e\<in>set es. \<exists>i\<in>set (used_indices e). py_index N i = None)
            \<and> process_expenses N es (paid, share) = Inl IndexError)
   \<or> (\<exists>paid' share'. process_expenses N es (paid, share) = Inr (paid', share')
          \<and> (\<forall>e\<in>set es. \<forall>i\<in>set (used_indices e). py_index N i \<noteq> None)
          \<and> length paid' = N \<and> length share' = N
          \<and> sum_list paid' = sum_list paid + sum_list (map amount es)
          \<and> ((\<forall>e\<in>set es. split_mode e \<in> {''equal'', ''custom %'', ''specific persons''}
                  \<and> included e \<noteq> [])
                \<longrightarrow> sum_list share' = sum_list share + sum_list (map amount es)))"
  using assms(2,3)
proof (induction es arbitrary: paid share)
  case Nil
  then show ?case by simp
next
  case (Cons e es)
  from process_expense_cases[OF assms(1) Cons.prems, of e] show ?case
  proof (elim disjE conjE exE)
    assume "\<exists>i\<in>set (used_indices e). py_index N i = None"
      "process_expense N e (paid, share) = Inl IndexError"
    then show ?thesis by auto
  next
    fix paid' share'
    assume a: "process_expense N e (paid, share) = Inr (paid', share')"
      "\<forall>i\<in>set (used_indices e). py_index N i \<noteq> None"
      "length paid' = N" "length share' = N"
      "sum_list paid' = sum_list paid + amount e"
      "split_mode e \<in> {''equal'', ''custom %'', ''specific persons''} \<and> included e \<noteq> []
         \<longrightarrow> sum_list share' = sum_list share + amount e"
    from Cons.IH[OF a(3,4)] show ?thesis
    proof (elim disjE conjE exE)
      assume "\<exists>e\<in>set es. \<exists>i\<in>set (used_indices e). py_index N i = None"
        "process_expenses N es (paid', share') = Inl IndexError"
      then show ?thesis using a(1) by auto
    next
      fix paid'' share''
      assume b: "process_expenses N es (paid', share') = Inr (paid'', share'')"
        "\<forall>e\<in>set es. \<forall>i\<in>set (used_indices e). py_index N i \<noteq> None"
        "length paid'' = N" "length share'' = N"
        "sum_list paid'' = sum_list paid' + sum_list (map amount es)"
        "(\<forall>e\<in>set es. split_mode e \<in> {''equal'', ''custom %'', ''specific persons''}
              \<and> included e \<noteq> [])
           \<longrightarrow> sum_list share'' = sum_list share' + sum_list (map amount es)"
      have "process_expenses N (e # es) (paid, share) = Inr (paid'', share'')"
        using a(1) b(1) by simp
      moreover have "\<forall>e'\<in>set (e # es). \<forall>i\<in>set (used_indices e'). py_index N i \<noteq> None"
        using a(2) b(2) by simp
      moreover have "sum_list paid'' = sum_list paid + sum_list (map amount (e # es))"
        using a(5) b(5) by simp
      moreover have "(\<forall>e'\<in>set (e # es). split_mode e' \<in> {''equal'', ''custom %'', ''specific persons''}
              \<and> included e' \<noteq> [])
           \<longrightarrow> sum_list share'' = sum_list share + sum_list (map amount (e # es))"
        using a(6) b(6) by simp
      ultimately show ?thesis using b(3,4) by blast
    qed
  qed
qed

text \<open>
  \<open>add_expense\<close> never stores an empty \<open>included\<close> list while there is at least one
  person, and the expense form is only shown then.
\<close>

lemma add_expense_included_nonempty:
  "people st \<noteq> [] \<Longrightarrow>
     included (last (expenses (add_expense dsc amt payer mode shares incl st))) \<noteq> []"
  by (auto simp: add_expense_def py_range_def split: option.splits list.splits)



text \<open>
  Claim C3, as amended.  The code has no validation pass and no error of its own.  For
  \<open>N \<ge> 1\<close> participants the share computation raises Python's \<open>IndexError\<close> exactly
  when some index it uses is below \<open>-N\<close> or at least \<open>N\<close>; when every used index lies
  in \<open>[-N, N)\<close>, the negative ones included, it raises nothing and returns totals.
\<close>

theorem index_error_iff:
  assumes "0 < N"
  shows "(compute_shares N es = Inl IndexError
           \<longleftrightarrow> (\<exists>e\<in>set es. \<exists>i\<in>set (used_indices e). i < - int N \<or> int N \<le> i))
       \<and> ((\<forall>e\<in>set es. \<forall>i\<in>set (used_indices e). - int N \<le> i \<and> i < int N)
           \<longrightarrow> (\<exists>totals. compute_shares N es = Inr totals))"
proof -
  from process_expenses_cases[OF assms, of "replicate N 0" "replicate N 0" es]
  have "((\<exists>e\<in>set es. \<exists>i\<in>set (used_indices e). py_index N i = None)
            \<and> compute_shares N es = Inl IndexError)
      \<or> ((\<forall>e\<in>set es. \<forall>i\<in>set (used_indices e). py_index N i \<noteq> None)
            \<and> (\<exists>totals. compute_shares N es = Inr totals))"
    unfolding compute_shares_def by auto
  then have "((\<exists>e\<in>set es. \<exists>i\<in>set (used_indices e). i < - int N \<or> int N \<le> i)
            \<and> compute_shares N es = Inl IndexError)
      \<or> (\<not> (\<exists>e\<in>set es. \<exists>i\<in>set (used_indices e). i < - int N \<or> int N \<le> i)
            \<and> (\<exists>totals. compute_shares N es = Inr totals))"
    unfolding py_index_None_iff by blast
  moreover have "(\<forall>e\<in>set es. \<forall>i\<in>set (used_indices e). - int N \<le> i \<and> i < int N)
      \<longleftrightarrow> \<not> (\<exists>e\<in>set es. \<exists>i\<in>set (used_indices e). i < - int N \<or> int N \<le> i)"
    by (meson not_less)
  ultimately show ?thesis by auto
qed

text \<open>An index in \<open>[-N, 0)\<close> addresses the participant at \<open>N + i\<close>.\<close>

lemma negative_index_wraps:
  "- int (length xs) \<le> i \<Longrightarrow> i < 0 \<Longrightarrow>
     add_at xs i v = Inr (xs[nat (int (length xs) + i) := xs ! nat (int (length xs) + i) + v])"
  by (simp add: add_at_def py_index_def)

text \<open>
  Two participants are left after the third was removed; the second expense still names
  participant 2.
\<close>

theorem index_error_iff_witness:
  "(0::nat) < 2
   \<and> (\<exists>e\<in>set [\<lparr>desc = ''Dinner'', amount = 10, paid_by = 0, split_mode = ''equal'',
                   custom_shares = [], included = [0, 1]\<rparr>,
                 \<lparr>desc = ''Taxi'', amount = 30, paid_by = 2, split_mode = ''equal'',
                   custom_shares = [], included = [0, 1, 2]\<rparr>].
        \<exists>i\<in>set (used_indices e). i < - int 2 \<or> int 2 \<le> i)
   \<and> compute_shares 2
        [\<lparr>desc = ''Dinner'', amount = 10, paid_by = 0, split_mode = ''equal'',
           custom_shares = [], included = [0, 1]\<rparr>,
         \<lparr>desc = ''Taxi'', amount = 30, paid_by = 2, split_mode = ''equal'',
           custom_shares = [], included = [0, 1, 2]\<rparr>]
      = Inl IndexError"
proof -
  let ?es = "[\<lparr>desc = ''Dinner'', amount = 10, paid_by = 0, split_mode = ''equal'',
                   custom_shares = [], included = [0, 1]\<rparr>,
                 \<lparr>desc = ''Taxi'', amount = 30, paid_by = 2, split_mode = ''equal'',
                   custom_shares = [], included = [0, 1, 2]\<rparr>]"
  have n: "(0::nat) < 2" by simp
  have bad: "\<exists>e\<in>set ?es. \<exists>i\<in>set (used_indices e). i < - int 2 \<or> int 2 \<le> i"
    by (simp add: used_indices_def)
  show ?thesis
    using index_error_iff [OF n, of ?es] bad n by blast
qed

text \<open>
  Claim C3 as stated asks for a rejection before anything is computed.  With two
  participants the first expense is accumulated into the totals, and only then the second
  one, whose payer index is 2, raises \<open>IndexError\<close>; and a payer index of \<open>-1\<close>
  raises nothing at all: the amount is credited to the last participant.
\<close>

theorem invalid_reference_counterexample:
  "process_expense 2
     \<lparr>desc = ''Dinner'', amount = 10, paid_by = 0, split_mode = ''equal'',
       custom_shares = [], included = [0, 1]\<rparr> ([0, 0], [0, 0])
     = Inr ([10, 0], [5, 5])
   \<and> process_expense 2
     \<lparr>desc = ''Taxi'', amount = 30, paid_by = 2, split_mode = ''equal'',
       custom_shares = [], included = [0, 1, 2]\<rparr> ([10, 0], [5, 5])
     = Inl IndexError
   \<and> compute_shares 2
     [\<lparr>desc = ''Tea'', amount = 10, paid_by = - 1, split_mode = ''equal'',
        custom_shares = [], included = [0, 1]\<rparr>]
     = Inr ([0, 10], [5, 5])"
  by (simp add: compute_shares_def process_expense_def allocate_def equal_split_def
      add_at_def py_index_def numeral_2_eq_2)

section \<open>The empty subset\<close>

lemma add_at_nat: "k < length xs \<Longrightarrow> add_at xs (int k) v = Inr (xs[k := xs ! k + v])"
  by (simp add: add_at_def py_index_def)

lemma add_each_upt:
  "k \<le> n \<Longrightarrow> n \<le> length xs \<Longrightarrow>
     add_each xs (map int [k..<n]) v
       = Inr (take k xs @ map (\<lambda>s. s + v) (take (n - k) (drop k xs)) @ drop n xs)"
proof (induction "n - k" arbitrary: k xs)
  case 0
  then show ?case by simp
next
  case (Suc m)
  then have k: "k < n" "k < length xs" by simp_all
  define xs' where "xs' = xs[k := xs ! k + v]"
  have len: "length xs' = length xs" by (simp add: xs'_def)
  have upt: "[k..<n] = k # [Suc k..<n]"
    using k by (simp add: upt_conv_Cons)
  have IH: "add_each xs' (map int [Suc k..<n]) v
      = Inr (take (Suc k) xs' @ map (\<lambda>s. s + v) (take (n - Suc k) (drop (Suc k) xs')) @ drop n xs')"
    by (rule Suc.hyps(1)) (use Suc.hyps(2) Suc.prems k len in simp_all)
  have t: "take (Suc k) xs' = take k xs @ [xs ! k + v]"
    using k by (simp add: xs'_def take_Suc_conv_app_nth)
  have d: "drop (Suc k) xs' = drop (Suc k) xs"
    by (simp add: xs'_def)
  have dn: "drop n xs' = drop n xs"
    using k by (simp add: xs'_def)
  have dk: "drop k xs = xs ! k # drop (Suc k) xs"
    using k by (simp add: Cons_nth_drop_Suc)
  have nk: "n - k = Suc (n - Suc k)" using k by simp
  have "add_each xs (map int [k..<n]) v = add_each xs' (map int [Suc k..<n]) v"
    unfolding upt using k by (simp add: add_at_nat xs'_def)
  also have "\<dots> = Inr (take k xs @ map (\<lambda>s. s + v) (take (n - k) (drop k xs)) @ drop n xs)"
    unfolding IH t d dn dk nk by simp
  finally show ?case .
qed

lemma add_each_py_range:
  "n \<le> length xs \<Longrightarrow>
     add_each xs (py_range n) v = Inr (map (\<lambda>s. s + v) (take n xs) @ drop n xs)"
  using add_each_upt[of 0 n xs v] by (simp add: py_range_def)

lemma sum_list_map_add: "sum_list (map (\<lambda>s. s + v) xs) = sum_list xs + of_nat (length xs) * (v::rat)"
  by (induction xs) (simp_all add: algebra_simps)

text \<open>
  Claim C5, as amended.  An expense recorded with split mode \<open>specific persons\<close> and an
  empty (or absent) subset, while at least one person exists, stores the full participant
  list of that moment.  At settlement, with no person removed since, each of those
  participants gets the amount divided by their number, participants added later get
  nothing of it, and the full amount is allocated.
\<close>

theorem empty_subset_falls_back:
  assumes "people st \<noteq> []"
    and "incl = None \<or> incl = Some []"
    and "length (people st) \<le> N"
    and "length per_share = N"
  shows "allocate N
           (last (expenses (add_expense dsc amt payer ''specific persons'' shares incl st)))
           per_share
         = Inr (map (\<lambda>s. s + amt / of_nat (length (people st))) (take (length (people st)) per_share)
                @ drop (length (people st)) per_share)
       \<and> sum_list (map (\<lambda>s. s + amt / of_nat (length (people st))) (take (length (people st)) per_share)
                @ drop (length (people st)) per_share)
         = sum_list per_share + amt"
proof -
  define M where "M = length (people st)"
  define e where "e = last (expenses (add_expense dsc amt payer ''specific persons'' shares incl st))"
  have M0: "0 < M" using assms(1) by (simp add: M_def)
  have MN: "M \<le> length per_share" using assms(3,4) by (simp add: M_def)
  have inc: "included e = py_range M"
    using assms(2) by (auto simp: e_def add_expense_def M_def)
  have mode: "split_mode e = ''specific persons''" and amt: "amount e = amt"
    by (simp_all add: e_def add_expense_def)
  have lr: "length (py_range M) = M" by (simp add: py_range_def)
  have "allocate N e per_share = equal_split N e per_share"
    using mode by (simp add: allocate_def)
  also have "\<dots> = add_each per_share (py_range M) (amt / of_nat M)"
  proof -
    have "py_range M \<noteq> []" using M0 lr by auto
    then show ?thesis using M0 by (simp add: equal_split_def Let_def inc amt lr)
  qed
  also have "\<dots> = Inr (map (\<lambda>s. s + amt / of_nat M) (take M per_share) @ drop M per_share)"
    by (rule add_each_py_range[OF MN])
  finally have a: "allocate N e per_share
      = Inr (map (\<lambda>s. s + amt / of_nat M) (take M per_share) @ drop M per_share)" .
  have "sum_list (map (\<lambda>s. s + amt / of_nat M) (take M per_share) @ drop M per_share)
      = sum_list (take M per_share) + of_nat (length (take M per_share)) * (amt / of_nat M)
        + sum_list (drop M per_share)"
    by (simp add: sum_list_map_add)
  also have "\<dots> = sum_list (take M per_share) + sum_list (drop M per_share) + amt"
    using M0 MN by (simp add: min_def)
  also have "\<dots> = sum_list per_share + amt"
    by (metis append_take_drop_id sum_list_append)
  finally show ?thesis using a unfolding M_def e_def by simp
qed

text \<open>Two participants, none added later: 30 is shared as 15 and 15.\<close>

theorem empty_subset_falls_back_witness:
  "people \<lparr>people = [\<lparr>name = ''A'', phone = '''', upi = ''''\<rparr>,
                      \<lparr>name = ''B'', phone = '''', upi = ''''\<rparr>], expenses = []\<rparr> \<noteq> []
   \<and> allocate 2
        (last (expenses (add_expense ''Taxi'' 30 0 ''specific persons'' None (Some [])
           \<lparr>people = [\<lparr>name = ''A'', phone = '''', upi = ''''\<rparr>,
                      \<lparr>name = ''B'', phone = '''', upi = ''''\<rparr>], expenses = []\<rparr>)))
        [0, 0]
      = Inr [15, 15]"
proof -
  let ?st = "\<lparr>people = [\<lparr>name = ''A'', phone = '''', upi = ''''\<rparr>,
                        \<lparr>name = ''B'', phone = '''', upi = ''''\<rparr>], expenses = []\<rparr>"
  have p: "people ?st \<noteq> []" by simp
  have i: "Some [] = None \<or> Some ([] :: int list) = Some []" by simp
  have n: "length (people ?st) \<le> 2" by simp
  have l: "length [0, 0 :: rat] = 2" by simp
  show ?thesis
    using empty_subset_falls_back [OF p i n l, of "''Taxi''" 30 0 None]
    by (simp add: numeral_2_eq_2)
qed

text \<open>
  Claim C5 as stated shares the amount among all participants.  When a third participant
  is added after the expense was recorded, the expense of 30 is still shared as 15 and 15,
  and the third participant's share stays 0, not 10.
\<close>

theorem empty_subset_counterexample:
  "allocate 3
     (last (expenses (add_expense ''Taxi'' 30 0 ''specific persons'' None (Some [])
        \<lparr>people = [\<lparr>name = ''A'', phone = '''', upi = ''''\<rparr>,
                   \<lparr>name = ''B'', phone = '''', upi = ''''\<rparr>], expenses = []\<rparr>)))
     [0, 0, 0]
   = Inr [15, 15, 0]
   \<and> (15::rat) \<noteq> 30 / 3 \<and> (0::rat) \<noteq> 30 / 3"
  by (simp add: add_expense_def py_range_def allocate_def equal_split_def add_at_def
      py_index_def numeral_2_eq_2)

section \<open>Scaling the percentage weights\<close>

lemma add_weighted_scale:
  "c \<noteq> 0 \<Longrightarrow>
   add_weighted per_share (map (\<lambda>(i, w). (i, c * w)) shares) amt (c * tot)
     = add_weighted per_share shares amt tot"
proof (induction per_share shares amt tot rule: add_weighted.induct)
  case (1 per_share amt total_pct)
  show ?case by simp
next
  case (2 per_share idx pct rest amt total_pct)
  have q: "c * pct / (c * total_pct) = pct / total_pct" using \<open>c \<noteq> 0\<close> by simp
  show ?case
  proof (cases "add_at per_share idx (amt * (pct / total_pct))")
    case (Inl err)
    then show ?thesis using "2.prems" by simp
  next
    case (Inr per_share')
    then show ?thesis using "2.IH"[OF Inr "2.prems"] "2.prems" by simp
  qed
qed

lemma sum_list_scale:
  "sum_list (map snd (map (\<lambda>(i, w). (i, c * w)) shares)) = c * sum_list (map snd shares)"
  for c :: rat
  by (induction shares) (auto simp: algebra_simps)

text \<open>
  Claim C10, as amended.  In exact arithmetic the percentage split is scale-invariant:
  for an expense in split mode \<open>custom %\<close> whose weights sum to a nonzero total,
  multiplying every weight by the same positive constant leaves the allocation, and so
  every participant's share, exactly the same.
\<close>

theorem percentage_scale_invariant:
  assumes "split_mode e = ''custom %''"
    and "sum_list (map snd (custom_shares e)) \<noteq> 0"
    and "0 < c"
  shows "allocate N (e\<lparr>custom_shares := map (\<lambda>(i, w). (i, c * w)) (custom_shares e)\<rparr>) per_share
       = allocate N e per_share"
proof -
  have ne: "custom_shares e \<noteq> []" using assms(2) by auto
  show ?thesis
    using assms ne
    by (simp add: allocate_def Let_def sum_list_scale add_weighted_scale del: map_map)
qed

text \<open>Weights 30 and 70, and the same weights divided by 100: shares 60 and 140.\<close>

theorem percentage_scale_invariant_witness:
  "allocate 2
     (\<lparr>desc = ''Dinner'', amount = 200, paid_by = 0, split_mode = ''custom %'',
        custom_shares = [(0, 30), (1, 70)], included = [0, 1]\<rparr>
       \<lparr>custom_shares := map (\<lambda>(i, w). (i, (1 / 100) * w)) [(0, 30), (1, 70)]\<rparr>) [0, 0]
     = Inr [60, 140]
   \<and> sum_list (map snd [(0 :: int, 30 :: rat), (1, 70)]) \<noteq> 0"
proof -
  let ?e = "\<lparr>desc = ''Dinner'', amount = 200, paid_by = 0, split_mode = ''custom %'',
        custom_shares = [(0, 30), (1, 70)], included = [0, 1]\<rparr>"
  have m: "split_mode ?e = ''custom %''" by simp
  have t: "sum_list (map snd (custom_shares ?e)) \<noteq> 0" by simp
  have c: "(0::rat) < 1 / 100" by simp
  have a: "allocate 2 ?e [0, 0] = Inr [60, 140]"
    by (simp add: allocate_def add_at_def py_index_def numeral_2_eq_2)
  show ?thesis
    using percentage_scale_invariant [OF m t c, of 2 "[0, 0]"] a by simp
qed

text \<open>
  Claim C10 as stated promises exactly the same shares, and the code computes with floats.
  With the rounding written out, weights 1 and 5 give the first participant
  \<open>16.666666666666664\<close> of 100, and the same weights multiplied by \<open>0.1\<close> (that is
  \<open>0.1\<close> and \<open>0.5\<close>) give \<open>16.666666666666668\<close>.
\<close>

theorem percentage_scale_float_counterexample:
  "weighted_split_fl [0, 0] [(0, 1), (1, 5)] 100
     = Inr [2345624805922133 / 140737488355328, 2932031007402667 / 35184372088832]
   \<and> weighted_split_fl [0, 0] (map (\<lambda>(i, w). (i, fl (fl (1 / 10) * w))) [(0, 1), (1, 5)]) 100
     = Inr [4691249611844267 / 281474976710656, 2932031007402667 / 35184372088832]
   \<and> (2345624805922133 / 140737488355328 :: rat) \<noteq> 4691249611844267 / 281474976710656"
  by code_simp


section \<open>The store: frame and repeated calls\<close>

lemma cell_less: "cell h r = Some x \<Longrightarrow> r < length h"
  by (simp add: cell_def split: if_splits)

lemma cell_append_old: "r < length h \<Longrightarrow> cell (h @ new) r = cell h r"
  by (simp add: cell_def nth_append)

lemma cell_append_new: "cell (h @ [ListObj p v]) (length h) = Some (p, v)"
  by (simp add: cell_def)

lemma cell_update_same:
  "r < length h \<Longrightarrow> cell (h[r := ListObj p v]) r = Some (p, v)"
  by (simp add: cell_def)

lemma cell_update_other: "r \<noteq> r' \<Longrightarrow> cell (h[r' := x]) r = cell h r"
  by (simp add: cell_def)

lemma sub_amt_Some:
  "cell h r = Some (p, v) \<Longrightarrow> sub_amt h r t = Some (h[r := ListObj p (v - t)])"
  by (simp add: sub_amt_def)

lemma map_cell_append:
  "\<forall>r\<in>set rs. r < length h \<Longrightarrow> map (cell (h @ new)) rs = map (cell h) rs"
  by (simp add: cell_append_old)

lemma collect_balances_h_refines:
  assumes "map (cell h) dr = map Some ds" and "map (cell h) cr = map Some cs"
    and "distinct (dr @ cr)" and "\<forall>r\<in>set (dr @ cr). base \<le> r \<and> r < length h"
    and "base \<le> length h"
  shows "\<exists>dr' cr' new. collect_balances_h balances dr cr h = (dr', cr', h @ new)
           \<and> map (cell (h @ new)) dr' = map Some (fst (collect_balances balances ds cs))
           \<and> map (cell (h @ new)) cr' = map Some (snd (collect_balances balances ds cs))
           \<and> distinct (dr' @ cr')
           \<and> (\<forall>r\<in>set (dr' @ cr'). base \<le> r \<and> r < length (h @ new))"
  using assms
proof (induction balances dr cr h arbitrary: ds cs rule: collect_balances_h.induct)
  case (1 debtors creditors h)
  have "collect_balances_h [] debtors creditors h = (debtors, creditors, h @ [])" by simp
  then show ?case using 1 by (metis append_Nil2 collect_balances.simps(1) fst_conv snd_conv)
next
  case (2 person bal rest debtors creditors h)
  consider (skip) "\<bar>bal\<bar> < eps" | (debtor) "\<not> \<bar>bal\<bar> < eps" "bal < 0"
    | (creditor) "\<not> \<bar>bal\<bar> < eps" "\<not> bal < 0" by blast
  then show ?case
  proof cases
    case skip
    from "2.IH"(1)[OF skip "2.prems"] skip show ?thesis by simp
  next
    case debtor
    define h1 where "h1 = h @ [ListObj person (- bal)]"
    have old: "\<forall>r\<in>set (debtors @ creditors). r < length h" using "2.prems"(4) by blast
    have md: "map (cell h1) debtors = map (cell h) debtors"
      and mc: "map (cell h1) creditors = map (cell h) creditors"
      unfolding h1_def using old by (simp_all add: map_cell_append)
    have a: "map (cell h1) (debtors @ [length h]) = map Some (ds @ [(person, - bal)])"
      using "2.prems"(1) md by (simp add: h1_def cell_append_new)
    have b: "map (cell h1) creditors = map Some cs"
      using "2.prems"(2) mc by simp
    have c: "distinct ((debtors @ [length h]) @ creditors)"
      using "2.prems"(3) old by auto
    have d: "\<forall>r\<in>set ((debtors @ [length h]) @ creditors). base \<le> r \<and> r < length h1"
      using "2.prems"(4,5) old by (auto simp: h1_def less_Suc_eq)
    have e: "base \<le> length h1" using "2.prems"(5) by (simp add: h1_def)
    from "2.IH"(2)[OF debtor, folded h1_def, OF a b c d e]
    obtain dr' cr' new where r:
      "collect_balances_h rest (debtors @ [length h]) creditors h1 = (dr', cr', h1 @ new)"
      "map (cell (h1 @ new)) dr' = map Some (fst (collect_balances rest (ds @ [(person, - bal)]) cs))"
      "map (cell (h1 @ new)) cr' = map Some (snd (collect_balances rest (ds @ [(person, - bal)]) cs))"
      "distinct (dr' @ cr')"
      "\<forall>r\<in>set (dr' @ cr'). base \<le> r \<and> r < length (h1 @ new)"
      by blast
    have h1n: "h1 @ new = h @ (ListObj person (- bal) # new)" by (simp add: h1_def)
    show ?thesis
      apply (rule exI[of _ dr'], rule exI[of _ cr'], rule exI[of _ "ListObj person (- bal) # new"])
      using r debtor unfolding h1n by (simp add: h1_def)
  next
    case creditor
    define h1 where "h1 = h @ [ListObj person bal]"
    have old: "\<forall>r\<in>set (debtors @ creditors). r < length h" using "2.prems"(4) by blast
    have md: "map (cell h1) debtors = map (cell h) debtors"
      and mc: "map (cell h1) creditors = map (cell h) creditors"
      unfolding h1_def using old by (simp_all add: map_cell_append)
    have a: "map (cell h1) debtors = map Some ds"
      using "2.prems"(1) md by simp
    have b: "map (cell h1) (creditors @ [length h]) = map Some (cs @ [(person, bal)])"
      using "2.prems"(2) mc by (simp add: h1_def cell_append_new)
    have c: "distinct (debtors @ (creditors @ [length h]))"
      using "2.prems"(3) old by auto
    have d: "\<forall>r\<in>set (debtors @ (creditors @ [length h])). base \<le> r \<and> r < length h1"
      using "2.prems"(4,5) old by (auto simp: h1_def less_Suc_eq)
    have e: "base \<le> length h1" using "2.prems"(5) by (simp add: h1_def)
    from "2.IH"(3)[OF creditor, folded h1_def, OF a b c d e]
    obtain dr' cr' new where r:
      "collect_balances_h rest debtors (creditors @ [length h]) h1 = (dr', cr', h1 @ new)"
      "map (cell (h1 @ new)) dr' = map Some (fst (collect_balances rest ds (cs @ [(person, bal)])))"
      "map (cell (h1 @ new)) cr' = map Some (snd (collect_balances rest ds (cs @ [(person, bal)])))"
      "distinct (dr' @ cr')"
      "\<forall>r\<in>set (dr' @ cr'). base \<le> r \<and> r < length (h1 @ new)"
      by blast
    have h1n: "h1 @ new = h @ (ListObj person bal # new)" by (simp add: h1_def)
    show ?thesis
      apply (rule exI[of _ dr'], rule exI[of _ cr'], rule exI[of _ "ListObj person bal # new"])
      using r creditor unfolding h1n by (simp add: h1_def)
  qed
qed

lemma amt_key_cell: "cell h r = Some x \<Longrightarrow> amt_key h r = snd x"
  by (cases x) (simp add: amt_key_def)

lemma insort_key_refines:
  fixes k :: "rat \<Rightarrow> rat"
  assumes "map (cell h) rs = map Some xs" and "cell h r = Some x"
  shows "map (cell h) (insort_key (\<lambda>r. k (amt_key h r)) r rs)
       = map Some (insort_key (\<lambda>x. k (snd x)) x xs)"
  using assms(1)
proof (induction rs arbitrary: xs)
  case Nil
  then show ?case using assms(2) by simp
next
  case (Cons r' rs)
  then obtain x' xs' where xs: "xs = x' # xs'" and c: "cell h r' = Some x'"
    and m: "map (cell h) rs = map Some xs'"
    by (cases xs) auto
  have keys: "amt_key h r = snd x" "amt_key h r' = snd x'"
    using assms(2) c by (simp_all add: amt_key_cell)
  show ?case
    using Cons.IH[OF m] c m assms(2) by (simp add: xs keys)
qed

lemma sort_key_refines:
  fixes k :: "rat \<Rightarrow> rat"
  assumes "map (cell h) rs = map Some xs"
  shows "map (cell h) (sort_key (\<lambda>r. k (amt_key h r)) rs)
       = map Some (sort_key (\<lambda>x. k (snd x)) xs)"
  using assms
proof (induction rs arbitrary: xs)
  case Nil
  then show ?case by simp
next
  case (Cons r rs)
  then obtain x xs' where xs: "xs = x # xs'" and c: "cell h r = Some x"
    and m: "map (cell h) rs = map Some xs'"
    by (cases xs) auto
  show ?case
    unfolding xs using insort_key_refines[OF Cons.IH[OF m] c, of k] by simp
qed

lemma settle_loop_h_refines:
  assumes "map (cell h) dr = map Some ds" and "map (cell h) cr = map Some cs"
    and "distinct (dr @ cr)"
  shows "\<exists>h'. settle_loop_h dr cr i j ts h = Some (settle_loop ds cs i j ts, h')
           \<and> length h' = length h
           \<and> (\<forall>a. a \<notin> set (dr @ cr) \<longrightarrow> h' ! a = h ! a)"
  using assms
proof (induction ds cs i j ts arbitrary: h rule: settle_loop.induct)
  case (1 ds cs i j ts)
  have ld: "length dr = length ds" and lc: "length cr = length cs"
    using "1.prems"(1,2) by (metis length_map)+
  show ?case
  proof (cases "i < length ds \<and> j < length cs")
    case False
    then have "settle_loop_h dr cr i j ts h = Some (ts, h)"
      by (subst settle_loop_h.simps) (use ld lc in auto)
    moreover from False have "settle_loop ds cs i j ts = ts"
      by (subst settle_loop.simps) auto
    ultimately show ?thesis by simp
  next
    case True
    define rd where "rd = dr ! i"
    define rc where "rc = cr ! j"
    define dp where "dp = fst (ds ! i)"
    define d where "d = snd (ds ! i)"
    define cp where "cp = fst (cs ! j)"
    define c where "c = snd (cs ! j)"
    define t where "t = min d c"
    define ds' where "ds' = ds[i := (dp, d - t)]"
    define cs' where "cs' = cs[j := (cp, c - t)]"
    define i' where "i' = (if snd (ds' ! i) \<le> eps then i + 1 else i)"
    define j' where "j' = (if snd (cs' ! j) \<le> eps then j + 1 else j)"
    define h1 where "h1 = h[rd := ListObj dp (d - t)]"
    define h2 where "h2 = h1[rc := ListObj cp (c - t)]"
    note defs = dp_def d_def cp_def c_def t_def ds'_def cs'_def i'_def j'_def
    have iL: "i < length dr" and jL: "j < length cr" using True ld lc by simp_all
    have cd: "cell h rd = Some (dp, d)"
      using "1.prems"(1) iL True unfolding rd_def dp_def d_def
      by (metis nth_map prod.collapse ld)
    have cc: "cell h rc = Some (cp, c)"
      using "1.prems"(2) jL True unfolding rc_def cp_def c_def
      by (metis nth_map prod.collapse lc)
    have rdL: "rd < length h" and rcL: "rc < length h"
      using cd cc by (auto dest: cell_less)
    have ne: "rd \<noteq> rc"
      using "1.prems"(3) iL jL unfolding rd_def rc_def
      by (metis disjoint_iff distinct_append nth_mem)
    have s1: "sub_amt h rd t = Some h1"
      using cd by (simp add: sub_amt_Some h1_def)
    have cc1: "cell h1 rc = Some (cp, c)"
      using cc ne by (simp add: h1_def cell_update_other)
    have s2: "sub_amt h1 rc t = Some h2"
      using cc1 by (simp add: sub_amt_Some h2_def)
    have cd2: "cell h2 rd = Some (dp, d - t)"
      using rdL ne by (simp add: h2_def h1_def cell_update_other cell_update_same)
    have cc2: "cell h2 rc = Some (cp, c - t)"
      using rcL by (simp add: h2_def h1_def cell_update_same)
    have other: "cell h2 r = cell h r" if "r \<noteq> rd" "r \<noteq> rc" for r
      using that by (simp add: h2_def h1_def cell_update_other)
    have i'_eq: "i' = (if d - t \<le> eps then i + 1 else i)"
      using True by (simp add: i'_def ds'_def)
    have j'_eq: "j' = (if c - t \<le> eps then j + 1 else j)"
      using True by (simp add: j'_def cs'_def)
    have unfh: "settle_loop_h dr cr i j ts h = settle_loop_h dr cr i' j' (ts @ [(dp, cp, t)]) h2"
      apply (subst settle_loop_h.simps)
      using iL jL cd cc s1 s2 cd2 cc2
      by (simp add: rd_def[symmetric] rc_def[symmetric] t_def[symmetric] i'_eq j'_eq)
    have unf: "settle_loop ds cs i j ts = settle_loop ds' cs' i' j' (ts @ [(dp, cp, t)])"
      unfolding defs by (subst settle_loop.simps) (simp only: True if_True Let_def simp_thms)
    have dist_d: "dr ! k \<noteq> rd" if "k < length dr" "k \<noteq> i" for k
      using "1.prems"(3) that iL unfolding rd_def by (simp add: nth_eq_iff_index_eq)
    have dist_c: "cr ! k \<noteq> rc" if "k < length cr" "k \<noteq> j" for k
      using "1.prems"(3) that jL unfolding rc_def by (simp add: nth_eq_iff_index_eq)
    have cross_d: "dr ! k \<noteq> rc" if "k < length dr" for k
      using "1.prems"(3) that jL unfolding rc_def
      by (metis disjoint_iff distinct_append nth_mem)
    have cross_c: "cr ! k \<noteq> rd" if "k < length cr" for k
      using "1.prems"(3) that iL unfolding rd_def
      by (metis disjoint_iff distinct_append nth_mem)
    have md: "map (cell h2) dr = map Some ds'"
    proof (rule nth_equalityI)
      show "length (map (cell h2) dr) = length (map Some ds')" by (simp add: ld ds'_def)
    next
      fix k assume "k < length (map (cell h2) dr)"
      then have k: "k < length dr" by simp
      show "map (cell h2) dr ! k = map Some ds' ! k"
      proof (cases "k = i")
        case True
        then show ?thesis using k ld cd2 by (simp add: ds'_def rd_def)
      next
        case False
        have "cell h2 (dr ! k) = cell h (dr ! k)"
          by (rule other) (use dist_d cross_d k False in auto)
        also have "\<dots> = Some (ds ! k)"
          using "1.prems"(1) k ld by (metis nth_map)
        finally show ?thesis using k ld False by (simp add: ds'_def)
      qed
    qed
    have mc: "map (cell h2) cr = map Some cs'"
    proof (rule nth_equalityI)
      show "length (map (cell h2) cr) = length (map Some cs')" by (simp add: lc cs'_def)
    next
      fix k assume "k < length (map (cell h2) cr)"
      then have k: "k < length cr" by simp
      show "map (cell h2) cr ! k = map Some cs' ! k"
      proof (cases "k = j")
        case True
        then show ?thesis using k lc cc2 by (simp add: cs'_def rc_def)
      next
        case False
        have "cell h2 (cr ! k) = cell h (cr ! k)"
          by (rule other) (use dist_c cross_c k False in auto)
        also have "\<dots> = Some (cs ! k)"
          using "1.prems"(2) k lc by (metis nth_map)
        finally show ?thesis using k lc False by (simp add: cs'_def)
      qed
    qed
    note IH = "1.IH"[OF True refl refl refl refl refl refl refl refl refl refl,
        folded dp_def d_def cp_def c_def t_def]
    from IH[OF md[unfolded ds'_def] mc[unfolded cs'_def] "1.prems"(3)]
    obtain h' where h': "settle_loop_h dr cr i' j' (ts @ [(dp, cp, t)]) h2
        = Some (settle_loop ds' cs' i' j' (ts @ [(dp, cp, t)]), h')"
      "length h' = length h2" "\<forall>a. a \<notin> set (dr @ cr) \<longrightarrow> h' ! a = h2 ! a"
      unfolding ds'_def cs'_def i'_def j'_def by blast
    have mem: "rd \<in> set (dr @ cr)" "rc \<in> set (dr @ cr)"
      using iL jL by (simp_all add: rd_def rc_def)
    have frame: "h2 ! a = h ! a" if "a \<notin> set (dr @ cr)" for a
    proof -
      from that mem have "a \<noteq> rd" "a \<noteq> rc" by blast+
      then show ?thesis by (simp add: h2_def h1_def)
    qed
    show ?thesis
      unfolding unfh unf using h' frame by (simp add: h2_def h1_def)
  qed
qed

text \<open>
  The function on the heap returns, and returns the transfer list of the pure function;
  every object that existed before the call is left as it was.
\<close>

lemma minimize_transactions_h_refines:
  assumes "dict_at h a = Some balances"
  shows "\<exists>h'. minimize_transactions_h a h = Some (minimize_transactions balances, h')
           \<and> take (length h) h' = h"
proof -
  define D where "D = fst (collect_balances balances [] [])"
  define C where "C = snd (collect_balances balances [] [])"
  from collect_balances_h_refines[of h "[]" "[]" "[]" "[]" "length h" balances]
  obtain dr cr new where col:
    "collect_balances_h balances [] [] h = (dr, cr, h @ new)"
    "map (cell (h @ new)) dr = map Some D"
    "map (cell (h @ new)) cr = map Some C"
    "distinct (dr @ cr)"
    "\<forall>r\<in>set (dr @ cr). length h \<le> r \<and> r < length (h @ new)"
    unfolding D_def C_def by auto
  define h1 where "h1 = h @ new"
  define sdr where "sdr = sort_key (amt_key h1) dr"
  define scr where "scr = sort_key (\<lambda>r. - amt_key h1 r) cr"
  have md: "map (cell h1) sdr = map Some (sort_key snd D)"
    using sort_key_refines[OF col(2), of "\<lambda>v. v"] by (simp add: sdr_def h1_def)
  have mc: "map (cell h1) scr = map Some (sort_key (\<lambda>x. - snd x) C)"
    using sort_key_refines[OF col(3), of uminus] by (simp add: scr_def h1_def)
  have dist: "distinct (sdr @ scr)"
    using col(4) by (simp add: sdr_def scr_def)
  have refs: "set (sdr @ scr) = set (dr @ cr)"
    by (simp add: sdr_def scr_def)
  from settle_loop_h_refines[OF md mc dist, of 0 0 "[]"]
  obtain h' where h': "settle_loop_h sdr scr 0 0 [] h1
      = Some (settle_loop (sort_key snd D) (sort_key (\<lambda>x. - snd x) C) 0 0 [], h')"
    "length h' = length h1" "\<forall>a. a \<notin> set (sdr @ scr) \<longrightarrow> h' ! a = h1 ! a"
    by blast
  have pure: "minimize_transactions balances
      = settle_loop (sort_key snd D) (sort_key (\<lambda>x. - snd x) C) 0 0 []"
    by (simp add: minimize_transactions_def D_def C_def case_prod_unfold Let_def)
  have run: "minimize_transactions_h a h = Some (minimize_transactions balances, h')"
    using assms col(1) h'(1)
    by (simp add: minimize_transactions_h_def pure sdr_def scr_def h1_def)
  have "take (length h) h' = h"
  proof (rule nth_equalityI)
    show "length (take (length h) h') = length h"
      using h'(2) by (simp add: h1_def)
  next
    fix k assume "k < length (take (length h) h')"
    then have k: "k < length h" by simp
    have "k \<notin> set (sdr @ scr)"
    proof
      assume "k \<in> set (sdr @ scr)"
      then have "k \<in> set (dr @ cr)" unfolding refs .
      with col(5) have "length h \<le> k" by blast
      with k show False by simp
    qed
    then have "h' ! k = h1 ! k" using h'(3) by blast
    also have "\<dots> = h ! k" using k by (simp add: h1_def nth_append)
    finally show "take (length h) h' ! k = h ! k" using k by simp
  qed
  with run show ?thesis by blast
qed

lemma dict_at_take:
  "take (length h) h' = h \<Longrightarrow> dict_at h a = Some b \<Longrightarrow> dict_at h' a = Some b"
proof -
  assume t: "take (length h) h' = h" and d: "dict_at h a = Some b"
  from d have a: "a < length h" by (simp add: dict_at_def split: if_splits)
  have "length (take (length h) h') = length h" using t by simp
  then have "length h \<le> length h'" by simp
  moreover from t a have "h' ! a = h ! a" by (metis nth_take)
  ultimately show ?thesis using d a by (simp add: dict_at_def)
qed

text \<open>
  Claim C9.  \<open>minimize_transactions\<close> leaves the input mapping unchanged: called with
  the address of a dictionary it returns, the dictionary at that address holds the same
  entries afterwards, and so does every other object that existed before the call.  The
  function writes only to the list objects it has allocated itself.
\<close>

theorem input_mapping_unchanged:
  assumes "dict_at h a = Some balances"
  shows "\<exists>ts h'. minimize_transactions_h a h = Some (ts, h')
           \<and> dict_at h' a = Some balances
           \<and> take (length h) h' = h"
proof -
  from minimize_transactions_h_refines[OF assms]
  obtain h' where "minimize_transactions_h a h = Some (minimize_transactions balances, h')"
    "take (length h) h' = h" by blast
  moreover from this(2) assms have "dict_at h' a = Some balances" by (rule dict_at_take)
  ultimately show ?thesis by blast
qed

text \<open>
  The equal-split scenario on a heap holding only the dictionary: three list objects are
  allocated and settled to zero, the dictionary stays.
\<close>

theorem input_mapping_unchanged_witness:
  "dict_at [DictObj [(''A'', 200), (''B'', - 100), (''C'', - 100)]] 0
     = Some [(''A'', 200), (''B'', - 100), (''C'', - 100)]
   \<and> minimize_transactions_h 0 [DictObj [(''A'', 200), (''B'', - 100), (''C'', - 100)]]
     = Some ([(''B'', ''A'', 100), (''C'', ''A'', 100)],
             [DictObj [(''A'', 200), (''B'', - 100), (''C'', - 100)],
              ListObj ''A'' 0, ListObj ''B'' 0, ListObj ''C'' 0])
   \<and> (\<exists>ts h'. minimize_transactions_h 0 [DictObj [(''A'', 200), (''B'', - 100), (''C'', - 100)]]
                 = Some (ts, h')
          \<and> dict_at h' 0 = Some [(''A'', 200), (''B'', - 100), (''C'', - 100)]
          \<and> take (length [DictObj [(''A'', 200), (''B'', - 100), (''C'', - 100)]]) h'
              = [DictObj [(''A'', 200), (''B'', - 100), (''C'', - 100)]])"
proof -
  let ?b = "[(''A'', 200), (''B'', - 100), (''C'', - 100)]"
  have d: "dict_at [DictObj ?b] 0 = Some ?b" by (simp add: dict_at_def)
  have r: "minimize_transactions_h 0 [DictObj ?b]
      = Some ([(''B'', ''A'', 100), (''C'', ''A'', 100)],
              [DictObj ?b, ListObj ''A'' 0, ListObj ''B'' 0, ListObj ''C'' 0])"
    by (simp add: minimize_transactions_h_def dict_at_def cell_def sub_amt_def amt_key_def eps_def
        settle_loop_h.simps)
  show ?thesis
    using input_mapping_unchanged [OF d] d r by blast
qed

text \<open>
  Claim C8.  Two invocations on the same mapping, the second on the store that the first
  one leaves behind, return the same ordered transfer list.  The dictionary is iterated
  in its insertion order and both sorts are stable.
\<close>

theorem two_invocations_agree:
  assumes "dict_at h a = Some balances"
  shows "\<exists>ts h1 h2. minimize_transactions_h a h = Some (ts, h1)
           \<and> minimize_transactions_h a h1 = Some (ts, h2)"
proof -
  from minimize_transactions_h_refines[OF assms]
  obtain h1 where 1: "minimize_transactions_h a h = Some (minimize_transactions balances, h1)"
    "take (length h) h1 = h" by blast
  from 1(2) assms have "dict_at h1 a = Some balances" by (rule dict_at_take)
  from minimize_transactions_h_refines[OF this]
  obtain h2 where "minimize_transactions_h a h1 = Some (minimize_transactions balances, h2)"
    by blast
  with 1(1) show ?thesis by blast
qed

text \<open>The percentage-split scenario, run twice.\<close>

theorem two_invocations_agree_witness:
  "dict_at [DictObj [(''A'', 140), (''B'', - 140)]] 0 = Some [(''A'', 140), (''B'', - 140)]
   \<and> (\<exists>ts h1 h2. minimize_transactions_h 0 [DictObj [(''A'', 140), (''B'', - 140)]] = Some (ts, h1)
          \<and> minimize_transactions_h 0 h1 = Some (ts, h2))"
proof -
  have d: "dict_at [DictObj [(''A'', 140), (''B'', - 140)]] 0 = Some [(''A'', 140), (''B'', - 140)]"
    by (simp add: dict_at_def)
  show ?thesis
    using two_invocations_agree [OF d] d by blast
qed

section \<open>Surcharge allocation\<close>

lemma sum_list_surcharge:
  "sum_list (map (\<lambda>s. s + (s / T) * k) xs) = sum_list xs + (sum_list xs / T) * (k::rat)"
  by (induction xs) (simp_all add: algebra_simps add_divide_distrib)

text \<open>
  Claim C4.  With \<open>total_base\<close> the sum of the base shares, \<open>tip\<close> the tip amount
  (\<open>total_base * tip_value / 100\<close> for the percentage tip, \<open>tip_value\<close> for the fixed
  tip, \<open>0\<close> otherwise) and \<open>tax = total_base * tax_percent / 100\<close>: when
  \<open>total_base > 0\<close> every share \<open>s\<close> becomes \<open>s + (s / total_base) * (tip + tax)\<close>
  and the new shares sum to \<open>total_base + tip + tax\<close>; when \<open>total_base = 0\<close> the shares
  are left unchanged.  In exact arithmetic the sum is met exactly.
\<close>

theorem surcharge_allocation:
  assumes "total_base = sum_list per_share"
    and "tip = (if tip_mode = ''Tip % (applied to total)'' then total_base * tip_value / 100
                else if tip_mode = ''Tip fixed amount'' then tip_value else 0)"
    and "tax = total_base * tax_percent / 100"
  shows "(0 < total_base \<longrightarrow>
            apply_surcharge tip_mode tip_value tax_percent per_share
              = map (\<lambda>s. s + (s / total_base) * (tip + tax)) per_share
          \<and> sum_list (apply_surcharge tip_mode tip_value tax_percent per_share)
              = total_base + tip + tax)
       \<and> (total_base = 0 \<longrightarrow>
            apply_surcharge tip_mode tip_value tax_percent per_share = per_share)"
proof -
  have tip: "tip_amount tip_mode tip_value total_base = tip"
    by (simp add: tip_amount_def assms(2))
  have tax: "tax_amount tax_percent total_base = tax"
    by (simp add: tax_amount_def assms(3))
  have pos: "apply_surcharge tip_mode tip_value tax_percent per_share
      = map (\<lambda>s. s + (s / total_base) * (tip + tax)) per_share" if "0 < total_base"
    using that tip tax by (simp add: apply_surcharge_def Let_def assms(1))
  have zero: "apply_surcharge tip_mode tip_value tax_percent per_share = per_share"
    if "total_base = 0"
    using that by (simp add: apply_surcharge_def Let_def assms(1))
  have total: "sum_list (map (\<lambda>s. s + (s / total_base) * (tip + tax)) per_share)
      = total_base + tip + tax" if "0 < total_base"
    unfolding sum_list_surcharge using that by (simp add: assms(1)[symmetric])
  show ?thesis using pos zero total by simp
qed

text \<open>
  The surcharge scenario of the specification: base shares \<open>[100, 100]\<close>, a tip of
  10 percent and a tax of 5 percent give \<open>[115, 115]\<close>; a zero base is left alone.
\<close>

theorem surcharge_allocation_witness:
  "apply_surcharge ''Tip % (applied to total)'' 10 5 [100, 100] = [115, 115]
   \<and> sum_list (apply_surcharge ''Tip % (applied to total)'' 10 5 [100, 100]) = 200 + 20 + 10
   \<and> apply_surcharge ''Tip fixed amount'' 7 5 [0, 0] = [0, 0]"
proof -
  have a: "(200::rat) = sum_list [100, 100]" by simp
  have b: "(20::rat) = (if ''Tip % (applied to total)'' = ''Tip % (applied to total)''
                        then 200 * 10 / 100
                        else if ''Tip % (applied to total)'' = ''Tip fixed amount'' then 10 else 0)"
    by simp
  have c: "(10::rat) = 200 * 5 / 100" by simp
  have a0: "(0::rat) = sum_list [0, 0]" by simp
  have b0: "(7::rat) = (if ''Tip fixed amount'' = ''Tip % (applied to total)''
                        then 0 * 7 / 100
                        else if ''Tip fixed amount'' = ''Tip fixed amount'' then 7 else 0)"
    by simp
  have c0: "(0::rat) = 0 * 5 / 100" by simp
  show ?thesis
    using surcharge_allocation [OF a b c] surcharge_allocation [OF a0 b0 c0] by simp
qed

end
